theory Spec2Isabelle
  imports Main "HOL-Library.Product_Lexorder" "HOL-Library.Multiset"
begin

section \<open>Dot-bracket parsing (\<open>dot_bracket_to_eff.py\<close>)\<close>

text \<open>
  The Python exceptions the functions of the script can raise, as values. The three
  \<open>ValueError\<close>s of \<open>parse_dotbracket\<close> carry the data of their messages; \<open>KeyError\<close>
  and \<open>IndexError\<close> are what a dictionary lookup and a list or string subscript raise.
\<close>

datatype error =
    UnmatchedClosing char int
  | UnexpectedCharacter char int
  | UnmatchedOpening char "int list"
  | KeyError
  | IndexError

fun is_ValueError :: "error \<Rightarrow> bool" where
  "is_ValueError (UnmatchedClosing c i) = True"
| "is_ValueError (UnexpectedCharacter c i) = True"
| "is_ValueError (UnmatchedOpening k st) = True"
| "is_ValueError KeyError = False"
| "is_ValueError IndexError = False"

text \<open>
  \<open>str.strip()\<close> removes white space at both ends. Characters are the code points
  below 256; the white space among them is TAB, LF, VT, FF, CR, FS, GS, RS, US, the
  blank, NEL and the no-break space.
\<close>

definition py_isspace :: "char \<Rightarrow> bool" where
  "py_isspace c = (of_char c \<in> {9, 10, 11, 12, 13, 28, 29, 30, 31, 32, 133, 160 :: nat})"

definition strip :: "string \<Rightarrow> string" where
  "strip s = rev (dropWhile py_isspace (rev (dropWhile py_isspace s)))"

text \<open>The string \<open>".()[]{}<>"\<close> of the membership test in line 58.\<close>

definition dot_chars :: string where
  "dot_chars = ''.()[]{}<>''"

text \<open>\<open>s = "".join(c for c in dotbracket.strip() if c in ".()[]{}<>")\<close>\<close>

definition clean :: "string \<Rightarrow> string" where
  "clean dotbracket = filter (\<lambda>c. c \<in> set dot_chars) (strip dotbracket)"

text \<open>
  The dictionary \<open>stacks\<close>, one list per opening symbol, with its keys in insertion
  order (the order \<open>stacks.items()\<close> yields them), and the dictionary \<open>match\<close>.
\<close>

type_synonym stacks = "char \<rightharpoonup> int list"

definition stack_keys :: "char list" where
  "stack_keys = ''([{<''"

definition init_stacks :: stacks where
  "init_stacks = [CHR ''('' \<mapsto> [], CHR ''['' \<mapsto> [], CHR ''{'' \<mapsto> [], CHR ''<'' \<mapsto> []]"

definition match :: "char \<rightharpoonup> char" where
  "match = [CHR '')'' \<mapsto> CHR ''('', CHR '']'' \<mapsto> CHR ''['',
            CHR ''}'' \<mapsto> CHR ''{'', CHR ''>'' \<mapsto> CHR ''<'']"

text \<open>
  The loop of lines 60 to 70 over the remaining characters, with the current value of
  \<open>idx\<close>. \<open>append\<close> adds at the end of a list and \<open>pop\<close> takes the last element.
\<close>

fun scan :: "stacks \<Rightarrow> (int \<times> int) list \<Rightarrow> int \<Rightarrow> string
    \<Rightarrow> error + (stacks \<times> (int \<times> int) list)" where
  "scan stacks pairs idx [] = Inr (stacks, pairs)"
| "scan stacks pairs idx (c # cs) =
     (case stacks c of
        Some st \<Rightarrow> scan (stacks(c \<mapsto> st @ [idx])) pairs (idx + 1) cs
      | None \<Rightarrow>
         (case match c of
            Some left \<Rightarrow>
              (case stacks left of
                 None \<Rightarrow> Inl KeyError
               | Some st \<Rightarrow>
                   if st = [] then Inl (UnmatchedClosing c idx)
                   else scan (stacks(left \<mapsto> butlast st)) (pairs @ [(last st, idx)])
                          (idx + 1) cs)
          | None \<Rightarrow>
              if c \<noteq> CHR ''.'' then Inl (UnexpectedCharacter c idx)
              else scan stacks pairs (idx + 1) cs))"

text \<open>The loop of lines 72 to 74 over \<open>stacks.items()\<close>.\<close>

fun check_open :: "stacks \<Rightarrow> char list \<Rightarrow> error option" where
  "check_open stacks [] = None"
| "check_open stacks (k # ks) =
     (case stacks k of
        None \<Rightarrow> check_open stacks ks
      | Some st \<Rightarrow> if st \<noteq> [] then Some (UnmatchedOpening k st) else check_open stacks ks)"

text \<open>
  \<open>pairs.sort(key=lambda x:(x[0], x[1]))\<close>: a stable sort on the key, tuples compared
  lexicographically.
\<close>

definition parse_dotbracket :: "string \<Rightarrow> int \<Rightarrow> error + (int \<times> int) list" where
  "parse_dotbracket dotbracket start_resnum =
     (case scan init_stacks [] start_resnum (clean dotbracket) of
        Inl e \<Rightarrow> Inl e
      | Inr (stacks, pairs) \<Rightarrow>
          (case check_open stacks stack_keys of
             Some e \<Rightarrow> Inl e
           | None \<Rightarrow> Inr (sort_key (\<lambda>x. (fst x, snd x)) pairs)))"

section \<open>Saenger classes\<close>

text \<open>
  \<open>str.upper()\<close> and \<open>str.replace("T", "U")\<close>. Upper case is modelled on the ASCII
  letters; no other character has one of the letters \<open>A\<close>, \<open>C\<close>, \<open>G\<close>, \<open>U\<close>, \<open>T\<close> as
  its upper case, so the comparisons of \<open>infer_saenger_pair\<close> come out the same.
\<close>

definition ascii_lower :: string where
  "ascii_lower = ''abcdefghijklmnopqrstuvwxyz''"

definition ascii_upper :: string where
  "ascii_upper = ''ABCDEFGHIJKLMNOPQRSTUVWXYZ''"

definition upper_char :: "char \<Rightarrow> char" where
  "upper_char c = (case map_of (zip ascii_lower ascii_upper) c of Some u \<Rightarrow> u | None \<Rightarrow> c)"

definition upper :: "string \<Rightarrow> string" where
  "upper s = map upper_char s"

definition replace_T_U :: "string \<Rightarrow> string" where
  "replace_T_U s = map (\<lambda>c. if c = CHR ''T'' then CHR ''U'' else c) s"

text \<open>Lines 100 to 109; the result \<open>None\<close> of the source is \<open>None\<close> here.\<close>

definition infer_saenger_pair :: "string \<Rightarrow> string \<Rightarrow> int option" where
  "infer_saenger_pair b1 b2 =
     (let b1 = replace_T_U (upper b1);
          b2 = replace_T_U (upper b2);
          pair = {b1, b2}
      in if pair = {''G'', ''C''} then Some 19
         else if pair = {''A'', ''U''} then Some 20
         else if pair = {''G'', ''U''} then Some 28
         else None)"

text \<open>\<open>str(n)\<close> for an integer, as the f-strings of the script render it.\<close>

fun digits :: "nat \<Rightarrow> string" where
  "digits n =
     (if n < 10 then [''0123456789'' ! n]
      else digits (n div 10) @ [''0123456789'' ! (n mod 10)])"

definition show_int :: "int \<Rightarrow> string" where
  "show_int i = (if i < 0 then CHR ''-'' # digits (nat (- i)) else digits (nat i))"

text \<open>
  A subscript \<open>xs[i]\<close> on a list or a string: a negative index counts from the end, and
  an index outside the sequence raises \<open>IndexError\<close>.
\<close>

definition subscript :: "'a list \<Rightarrow> int \<Rightarrow> error + 'a" where
  "subscript xs i =
     (let n = int (length xs); k = (if i < 0 then i + n else i)
      in if 0 \<le> k \<and> k < n then Inr (xs ! nat k) else Inl IndexError)"

text \<open>The two warnings that \<open>infer_saenger_for_pairs\<close> prints on the standard error.\<close>

definition warn_range :: "int \<Rightarrow> int \<Rightarrow> int \<Rightarrow> string" where
  "warn_range i j n = ''Warning: residues '' @ show_int i @ '', '' @ show_int j @
     '' out of range for sequence length '' @ show_int n"

definition warn_class :: "char \<Rightarrow> char \<Rightarrow> string" where
  "warn_class b1 b2 = ''Warning: cannot infer Saenger class for '' @ [b1] @ ''-'' @ [b2]"

text \<open>
  The loop of lines 114 to 125. The state is the list \<open>classes\<close> and the lines written
  to the standard error so far; the function returns both.
\<close>

fun infer_loop :: "(int \<times> int) list \<Rightarrow> string \<Rightarrow> int \<Rightarrow> int option list \<Rightarrow> string list
    \<Rightarrow> error + (int option list \<times> string list)" where
  "infer_loop [] seq start_resnum classes stderr = Inr (classes, stderr)"
| "infer_loop ((i, j) # pairs) seq start_resnum classes stderr =
     (let n = int (length seq); i0 = i - start_resnum; j0 = j - start_resnum
      in if \<not> (0 \<le> i0 \<and> i0 < n \<and> 0 \<le> j0 \<and> j0 < n)
         then infer_loop pairs seq start_resnum (classes @ [None])
                (stderr @ [warn_range i j n])
         else
          (case subscript seq i0 of
             Inl e \<Rightarrow> Inl e
           | Inr b1 \<Rightarrow>
              (case subscript seq j0 of
                 Inl e \<Rightarrow> Inl e
               | Inr b2 \<Rightarrow>
                  (let sclass = infer_saenger_pair [b1] [b2];
                       stderr = (if sclass = None then stderr @ [warn_class b1 b2] else stderr)
                   in infer_loop pairs seq start_resnum (classes @ [sclass]) stderr))))"

definition infer_saenger_for_pairs :: "(int \<times> int) list \<Rightarrow> string \<Rightarrow> int
    \<Rightarrow> error + (int option list \<times> string list)" where
  "infer_saenger_for_pairs pairs seq start_resnum = infer_loop pairs seq start_resnum [] []"

section \<open>The Phenix formatter\<close>

text \<open>
  The value of \<open>sclass\<close> in \<open>format_phenix\<close> is an integer taken from \<open>saenger_list\<close> or
  the override, which the command line passes as a string; \<open>fmt\<close> is how an f-string
  renders it.
\<close>

datatype pyval = PInt int | PStr string

fun fmt :: "pyval \<Rightarrow> string" where
  "fmt (PInt n) = show_int n"
| "fmt (PStr s) = s"

text \<open>\<open>sep.join(xs)\<close>\<close>

fun join :: "string \<Rightarrow> string list \<Rightarrow> string" where
  "join sep [] = []"
| "join sep [x] = x"
| "join sep (x # y # ys) = x @ sep @ join sep (y # ys)"

text \<open>
  The loop of lines 141 to 152 with the value of \<open>idx\<close> and the list \<open>out\<close>; the
  character \<open>0x27\<close> is the apostrophe around the chain identifier.
\<close>

fun phenix_loop :: "(int \<times> int) list \<Rightarrow> string \<Rightarrow> int option list \<Rightarrow> pyval option
    \<Rightarrow> int \<Rightarrow> string list \<Rightarrow> error + string list" where
  "phenix_loop [] chain saenger_list override idx out = Inr out"
| "phenix_loop ((i, j) # pairs) chain saenger_list override idx out =
     (let out = out @ [''      base_pair {''];
          out = out @ [''        base1 = chain '' @ [CHR 0x27] @ chain @ [CHR 0x27]
                        @ '' and resid '' @ show_int i];
          out = out @ [''        base2 = chain '' @ [CHR 0x27] @ chain @ [CHR 0x27]
                        @ '' and resid '' @ show_int j]
      in case subscript saenger_list idx of
           Inl e \<Rightarrow> Inl e
         | Inr s \<Rightarrow>
            (let sclass = map_option PInt s;
                 sclass = (if override \<noteq> None then override else sclass);
                 out = (case sclass of
                          Some v \<Rightarrow> out @ [''        saenger_class = '' @ fmt v]
                        | None \<Rightarrow> out);
                 out = out @ [''      }'']
             in phenix_loop pairs chain saenger_list override (idx + 1) out))"

definition format_phenix :: "(int \<times> int) list \<Rightarrow> string \<Rightarrow> int option list \<Rightarrow> pyval option
    \<Rightarrow> error + string" where
  "format_phenix pairs chain saenger_list override =
     (case phenix_loop pairs chain saenger_list override 0
             [''pdb_interpretation {'', ''  secondary_structure {'', ''    nucleic_acid {''] of
        Inl e \<Rightarrow> Inl e
      | Inr out \<Rightarrow> Inr (join [CHR 0x0A] (out @ [''    }'', ''  }'', ''}''])))"

section \<open>Notions of the specification\<close>

text \<open>
  Balance is judged one bracket type at a time (a pseudoknot crosses brackets of
  different types). For an opening symbol \<open>a\<close> and its closing symbol \<open>b\<close>, a closing
  symbol takes the latest opening symbol that is still unmatched; \<open>d\<close> counts the
  unmatched opening symbols so far. \<open>stray_close\<close> holds when some closing symbol finds
  none, and \<open>open_left\<close> is the number of opening symbols still unmatched at the end.
\<close>

definition bracket_types :: "(char \<times> char) list" where
  "bracket_types =
     [(CHR ''('', CHR '')''), (CHR ''['', CHR '']''), (CHR ''{'', CHR ''}''),
      (CHR ''<'', CHR ''>'')]"

fun stray_close :: "char \<Rightarrow> char \<Rightarrow> nat \<Rightarrow> string \<Rightarrow> bool" where
  "stray_close a b d [] = False"
| "stray_close a b d (c # cs) =
     (if c = a then stray_close a b (Suc d) cs
      else if c = b then d = 0 \<or> stray_close a b (d - 1) cs
      else stray_close a b d cs)"

fun open_left :: "char \<Rightarrow> char \<Rightarrow> nat \<Rightarrow> string \<Rightarrow> nat" where
  "open_left a b d [] = d"
| "open_left a b d (c # cs) =
     (if c = a then open_left a b (Suc d) cs
      else if c = b then open_left a b (d - 1) cs
      else open_left a b d cs)"

definition closing_unmatched :: "string \<Rightarrow> bool" where
  "closing_unmatched s = (\<exists>(a, b) \<in> set bracket_types. stray_close a b 0 s)"

definition opening_unmatched :: "string \<Rightarrow> bool" where
  "opening_unmatched s = (\<exists>(a, b) \<in> set bracket_types. 0 < open_left a b 0 s)"

definition balanced :: "string \<Rightarrow> bool" where
  "balanced s = (\<not> closing_unmatched s \<and> \<not> opening_unmatched s)"

text \<open>
  A nucleotide letter and the base it stands for: upper or lower case, with \<open>T\<close> read
  as \<open>U\<close>.
\<close>

definition nucleotide :: "char \<Rightarrow> char option" where
  "nucleotide c =
     (if c \<in> set ''Aa'' then Some (CHR ''A'')
      else if c \<in> set ''Cc'' then Some (CHR ''C'')
      else if c \<in> set ''Gg'' then Some (CHR ''G'')
      else if c \<in> set ''UuTt'' then Some (CHR ''U'')
      else None)"

text \<open>
  The block of one pair when every class is the value \<open>v\<close>: its fourth line is the
  \<open>saenger_class\<close> line with \<open>v\<close>.
\<close>

definition override_block :: "string \<Rightarrow> pyval \<Rightarrow> int \<times> int \<Rightarrow> string list" where
  "override_block chain v p =
     [''      base_pair {'',
      ''        base1 = chain '' @ [CHR 0x27] @ chain @ [CHR 0x27] @ '' and resid ''
        @ show_int (fst p),
      ''        base2 = chain '' @ [CHR 0x27] @ chain @ [CHR 0x27] @ '' and resid ''
        @ show_int (snd p),
      ''        saenger_class = '' @ fmt v,
      ''      }'']"

section \<open>Invariants of the parsing loop\<close>

text \<open>
  The keys of \<open>stacks\<close> never change, and \<open>stk\<close> reads the list under a key. The loop
  keeps \<open>scan_inv\<close>: every index on a stack is at least \<open>lo\<close> and below \<open>idx\<close> and is on
  one stack only, once, and in no pair; the indices of the pairs are all different, and
  a pair \<open>(i, j)\<close> has \<open>lo \<le> i < j < idx\<close>.
\<close>

definition wf_stacks :: "stacks \<Rightarrow> bool" where
  "wf_stacks stacks = (\<forall>k. (stacks k = None) = (k \<notin> set stack_keys))"

definition stk :: "stacks \<Rightarrow> char \<Rightarrow> int list" where
  "stk stacks k = (case stacks k of Some st \<Rightarrow> st | None \<Rightarrow> [])"

definition depth_sum :: "stacks \<Rightarrow> nat" where
  "depth_sum stacks = (\<Sum>k\<leftarrow>stack_keys. length (stk stacks k))"

definition scan_inv :: "int \<Rightarrow> stacks \<Rightarrow> (int \<times> int) list \<Rightarrow> int \<Rightarrow> bool" where
  "scan_inv lo stacks pairs idx =
     (wf_stacks stacks \<and> lo \<le> idx \<and>
      (\<forall>k. distinct (stk stacks k)) \<and>
      (\<forall>k k'. k \<noteq> k' \<longrightarrow> set (stk stacks k) \<inter> set (stk stacks k') = {}) \<and>
      (\<forall>k. \<forall>x \<in> set (stk stacks k).
         lo \<le> x \<and> x < idx \<and> x \<notin> fst ` set pairs \<and> x \<notin> snd ` set pairs) \<and>
      distinct (map fst pairs @ map snd pairs) \<and>
      (\<forall>(i, j) \<in> set pairs. lo \<le> i \<and> i < j \<and> j < idx))"

text \<open>What \<open>infer_saenger_for_pairs\<close> records and prints for one pair.\<close>

definition in_range :: "string \<Rightarrow> int \<Rightarrow> int \<times> int \<Rightarrow> bool" where
  "in_range seq start_resnum p =
     (0 \<le> fst p - start_resnum \<and> fst p - start_resnum < int (length seq) \<and>
      0 \<le> snd p - start_resnum \<and> snd p - start_resnum < int (length seq))"

definition pair_class :: "string \<Rightarrow> int \<Rightarrow> int \<times> int \<Rightarrow> int option" where
  "pair_class seq start_resnum p =
     (if in_range seq start_resnum p
      then infer_saenger_pair [seq ! nat (fst p - start_resnum)]
             [seq ! nat (snd p - start_resnum)]
      else None)"

definition pair_warning :: "string \<Rightarrow> int \<Rightarrow> int \<times> int \<Rightarrow> string list" where
  "pair_warning seq start_resnum p =
     (if \<not> in_range seq start_resnum p
      then [warn_range (fst p) (snd p) (int (length seq))]
      else if pair_class seq start_resnum p = None
      then [warn_class (seq ! nat (fst p - start_resnum)) (seq ! nat (snd p - start_resnum))]
      else [])"

section \<open>Lemmas\<close>

subsection \<open>The filtered input\<close>

text \<open>\<open>strip\<close> removes white space only, which the filter would drop anyway.\<close>

lemma filter_dropWhile_disj:
  "(\<And>x. Q x \<Longrightarrow> \<not> P x) \<Longrightarrow> filter P (dropWhile Q xs) = filter P xs"
  by (induction xs) auto

lemma space_not_dot: "py_isspace c \<Longrightarrow> c \<notin> set dot_chars"
  by (auto simp: py_isspace_def dot_chars_def)

lemma filter_strip: "filter (\<lambda>c. c \<in> set dot_chars) (strip s) = filter (\<lambda>c. c \<in> set dot_chars) s"
proof -
  let ?P = "\<lambda>c. c \<in> set dot_chars"
  have "filter ?P (strip s) = rev (filter ?P (dropWhile py_isspace (rev (dropWhile py_isspace s))))"
    by (simp add: strip_def rev_filter)
  also have "\<dots> = rev (filter ?P (rev (dropWhile py_isspace s)))"
    by (simp add: filter_dropWhile_disj space_not_dot)
  also have "\<dots> = filter ?P (dropWhile py_isspace s)"
    by (simp add: rev_filter)
  also have "\<dots> = filter ?P s"
    by (simp add: filter_dropWhile_disj space_not_dot)
  finally show ?thesis .
qed

lemma clean_filter: "clean s = filter (\<lambda>c. c \<in> set dot_chars) s"
  by (simp add: clean_def filter_strip)

lemma clean_idem: "clean (filter (\<lambda>c. c \<in> set dot_chars) s) = clean s"
  by (simp add: clean_filter)

lemma set_clean: "set (clean s) \<subseteq> set dot_chars"
  by (auto simp: clean_filter)

subsection \<open>The stacks and one round of the loop\<close>

lemma wf_init: "wf_stacks init_stacks"
  by (auto simp: wf_stacks_def init_stacks_def stack_keys_def)

lemma stk_init: "stk init_stacks k = []"
  by (simp add: stk_def init_stacks_def)

lemma wf_upd: "wf_stacks stacks \<Longrightarrow> k \<in> set stack_keys \<Longrightarrow> wf_stacks (stacks(k \<mapsto> v))"
  by (auto simp: wf_stacks_def)

lemma stk_upd: "stk (stacks(k \<mapsto> v)) = (stk stacks)(k := v)"
  by (auto simp: stk_def)

lemma wf_Some: "wf_stacks stacks \<Longrightarrow> stacks k = Some st \<Longrightarrow> k \<in> set stack_keys \<and> stk stacks k = st"
  unfolding wf_stacks_def stk_def by (metis option.distinct(1) option.simps(5))

lemma wf_None: "wf_stacks stacks \<Longrightarrow> stacks k = None \<Longrightarrow> k \<notin> set stack_keys"
  by (auto simp: wf_stacks_def)

lemma wf_key: "wf_stacks stacks \<Longrightarrow> k \<in> set stack_keys \<Longrightarrow> stacks k = Some (stk stacks k)"
  by (auto simp: wf_stacks_def stk_def split: option.splits)

lemma match_Some: "match c = Some left \<Longrightarrow> (left, c) \<in> set bracket_types \<and> left \<in> set stack_keys \<and> c \<notin> set stack_keys"
  by (auto simp: match_def bracket_types_def stack_keys_def split: if_splits)

lemma match_None: "match c = None \<Longrightarrow> (a, b) \<in> set bracket_types \<Longrightarrow> c \<noteq> b"
  by (auto simp: match_def bracket_types_def)

lemma types_keys:
  "(a, b) \<in> set bracket_types \<Longrightarrow> a \<in> set stack_keys \<and> b \<notin> set stack_keys \<and> match b = Some a"
  by (auto simp: match_def bracket_types_def stack_keys_def)

lemma types_inj:
  "(a, b) \<in> set bracket_types \<Longrightarrow> (a', b') \<in> set bracket_types \<Longrightarrow> (a = a') = (b = b')"
  by (auto simp: bracket_types_def)

lemma types_distinct: "(a, b) \<in> set bracket_types \<Longrightarrow> a \<noteq> b"
  by (auto simp: bracket_types_def)

lemma types_dot: "(a, b) \<in> set bracket_types \<Longrightarrow> a \<in> set dot_chars \<and> b \<in> set dot_chars"
  by (auto simp: bracket_types_def dot_chars_def)

lemma dot_cases:
  "c \<in> set dot_chars \<Longrightarrow> c = CHR ''.'' \<or> c \<in> set stack_keys \<or> (\<exists>left. match c = Some left)"
  by (auto simp: dot_chars_def stack_keys_def match_def)

lemma key_not_dot: "c \<in> set stack_keys \<Longrightarrow> c \<noteq> CHR ''.'' \<and> c \<in> set dot_chars"
  by (auto simp: stack_keys_def dot_chars_def)

lemma match_not_dot: "match c = Some left \<Longrightarrow> c \<noteq> CHR ''.'' \<and> c \<in> set dot_chars"
  by (auto simp: match_def dot_chars_def split: if_splits)

text \<open>One round of the loop, by the kind of the character read.\<close>

lemma scan_step [case_names push pop stray dot foreign]:
  assumes "wf_stacks stacks"
  obtains
    "c \<in> set stack_keys"
      "scan stacks pairs idx (c # cs) =
         scan (stacks(c \<mapsto> stk stacks c @ [idx])) pairs (idx + 1) cs"
  | left where "match c = Some left" "stk stacks left \<noteq> []"
      "scan stacks pairs idx (c # cs) =
         scan (stacks(left \<mapsto> butlast (stk stacks left)))
           (pairs @ [(last (stk stacks left), idx)]) (idx + 1) cs"
  | left where "match c = Some left" "stk stacks left = []"
      "scan stacks pairs idx (c # cs) = Inl (UnmatchedClosing c idx)"
  | "c = CHR ''.''" "scan stacks pairs idx (c # cs) = scan stacks pairs (idx + 1) cs"
  | "c \<notin> set dot_chars" "scan stacks pairs idx (c # cs) = Inl (UnexpectedCharacter c idx)"
proof (cases "stacks c")
  case (Some st)
  with assms have "c \<in> set stack_keys" "stk stacks c = st" by (auto dest: wf_Some)
  with Some that(1) show ?thesis by simp
next
  case None
  note n = None
  with assms have nk: "c \<notin> set stack_keys" by (rule wf_None)
  show ?thesis
  proof (cases "match c")
    case None
    show ?thesis
    proof (cases "c = CHR ''.''")
      case True
      with n None that(4) show ?thesis by simp
    next
      case False
      with dot_cases [of c] nk None have "c \<notin> set dot_chars" by auto
      with False n None that(5) show ?thesis by simp
    qed
  next
    case (Some left)
    from match_Some [OF Some] assms have l: "stacks left = Some (stk stacks left)"
      by (simp add: wf_key)
    show ?thesis
    proof (cases "stk stacks left = []")
      case True
      with n Some l that(3) show ?thesis by simp
    next
      case False
      with n Some l that(2) show ?thesis by simp
    qed
  qed
qed

subsection \<open>The loop and the unmatched symbols\<close>

text \<open>
  The length of the stack of a bracket type is the number \<open>d\<close> of its opening symbols
  that are unmatched so far.
\<close>

lemma depth_push:
  assumes "(a, b) \<in> set bracket_types" and "c \<in> set stack_keys"
  shows "stray_close a b (length (stk stacks a)) (c # cs) =
           stray_close a b (length (stk (stacks(c \<mapsto> stk stacks c @ [idx])) a)) cs"
    and "open_left a b (length (stk stacks a)) (c # cs) =
           open_left a b (length (stk (stacks(c \<mapsto> stk stacks c @ [idx])) a)) cs"
  using assms types_keys [OF assms(1)] by (auto simp: stk_upd)

lemma depth_pop:
  assumes "(a, b) \<in> set bracket_types" and "match c = Some left" and "stk stacks left \<noteq> []"
  shows "stray_close a b (length (stk stacks a)) (c # cs) =
           stray_close a b (length (stk (stacks(left \<mapsto> butlast (stk stacks left))) a)) cs"
    and "open_left a b (length (stk stacks a)) (c # cs) =
           open_left a b (length (stk (stacks(left \<mapsto> butlast (stk stacks left))) a)) cs"
  using assms types_keys [OF assms(1)] match_Some [OF assms(2)]
    types_inj [OF assms(1), of left c]
  by (auto simp: stk_upd)

lemma depth_dot:
  assumes "(a, b) \<in> set bracket_types"
  shows "stray_close a b d (CHR ''.'' # cs) = stray_close a b d cs"
    and "open_left a b d (CHR ''.'' # cs) = open_left a b d cs"
  using assms by (auto simp: bracket_types_def)

lemma scan_Inr:
  "scan stacks pairs idx cs = Inr (stacks', pairs') \<Longrightarrow> wf_stacks stacks \<Longrightarrow>
   (a, b) \<in> set bracket_types \<Longrightarrow>
   wf_stacks stacks' \<and> \<not> stray_close a b (length (stk stacks a)) cs \<and>
   length (stk stacks' a) = open_left a b (length (stk stacks a)) cs"
proof (induction cs arbitrary: stacks pairs idx)
  case Nil
  then show ?case by simp
next
  case (Cons c cs)
  note ab = Cons.prems(3)
  from Cons.prems(2) show ?case
  proof (cases rule: scan_step [where c = c and pairs = pairs and idx = idx and cs = cs])
    case push
    with Cons.prems have "wf_stacks (stacks(c \<mapsto> stk stacks c @ [idx]))"
      and "scan (stacks(c \<mapsto> stk stacks c @ [idx])) pairs (idx + 1) cs = Inr (stacks', pairs')"
      by (simp_all add: wf_upd)
    from Cons.IH [OF this(2,1) ab] show ?thesis
      by (simp only: depth_push [OF ab push(1), where idx = idx] simp_thms)
  next
    case (pop left)
    with Cons.prems match_Some [OF pop(1)]
    have "wf_stacks (stacks(left \<mapsto> butlast (stk stacks left)))"
      and "scan (stacks(left \<mapsto> butlast (stk stacks left)))
             (pairs @ [(last (stk stacks left), idx)]) (idx + 1) cs = Inr (stacks', pairs')"
      by (simp_all add: wf_upd)
    from Cons.IH [OF this(2,1) ab] show ?thesis
      by (simp only: depth_pop [OF ab pop(1,2)] simp_thms)
  next
    case (stray left)
    with Cons.prems(1) show ?thesis by simp
  next
    case dot
    with Cons.prems have "scan stacks pairs (idx + 1) cs = Inr (stacks', pairs')" by simp
    from Cons.IH [OF this Cons.prems(2) ab] show ?thesis
      by (simp only: dot(1) depth_dot [OF ab] simp_thms)
  next
    case foreign
    with Cons.prems(1) show ?thesis by simp
  qed
qed

lemma scan_Inl:
  "scan stacks pairs idx cs = Inl e \<Longrightarrow> wf_stacks stacks \<Longrightarrow> set cs \<subseteq> set dot_chars \<Longrightarrow>
   (\<exists>c i. e = UnmatchedClosing c i) \<and>
   (\<exists>(a, b) \<in> set bracket_types. stray_close a b (length (stk stacks a)) cs)"
proof (induction cs arbitrary: stacks pairs idx)
  case Nil
  then show ?case by simp
next
  case (Cons c cs)
  from Cons.prems have sub: "set cs \<subseteq> set dot_chars" and cd: "c \<in> set dot_chars"
    by auto
  from Cons.prems(2) show ?case
  proof (cases rule: scan_step [where c = c and pairs = pairs and idx = idx and cs = cs])
    case push
    with Cons.prems have "wf_stacks (stacks(c \<mapsto> stk stacks c @ [idx]))"
      and "scan (stacks(c \<mapsto> stk stacks c @ [idx])) pairs (idx + 1) cs = Inl e"
      by (simp_all add: wf_upd)
    from Cons.IH [OF this(2,1) sub] obtain a b where ab: "(a, b) \<in> set bracket_types"
      and "stray_close a b (length (stk (stacks(c \<mapsto> stk stacks c @ [idx])) a)) cs"
      and e: "\<exists>c i. e = UnmatchedClosing c i"
      by blast
    then have "stray_close a b (length (stk stacks a)) (c # cs)"
      by (simp only: depth_push [OF ab push(1), where idx = idx] simp_thms)
    with ab e show ?thesis by blast
  next
    case (pop left)
    with Cons.prems match_Some [OF pop(1)]
    have "wf_stacks (stacks(left \<mapsto> butlast (stk stacks left)))"
      and "scan (stacks(left \<mapsto> butlast (stk stacks left)))
             (pairs @ [(last (stk stacks left), idx)]) (idx + 1) cs = Inl e"
      by (simp_all add: wf_upd)
    from Cons.IH [OF this(2,1) sub] obtain a b where ab: "(a, b) \<in> set bracket_types"
      and "stray_close a b (length (stk (stacks(left \<mapsto> butlast (stk stacks left))) a)) cs"
      and e: "\<exists>c i. e = UnmatchedClosing c i"
      by blast
    then have "stray_close a b (length (stk stacks a)) (c # cs)"
      by (simp only: depth_pop [OF ab pop(1,2)] simp_thms)
    with ab e show ?thesis by blast
  next
    case (stray left)
    from match_Some [OF stray(1)] have "(left, c) \<in> set bracket_types" and "c \<noteq> left"
      by auto
    moreover from this stray(2) have "stray_close left c (length (stk stacks left)) (c # cs)"
      by simp
    moreover from stray(3) Cons.prems(1) have "e = UnmatchedClosing c idx" by simp
    ultimately show ?thesis by blast
  next
    case dot
    with Cons.prems have "scan stacks pairs (idx + 1) cs = Inl e" by simp
    from Cons.IH [OF this Cons.prems(2) sub] obtain a b where ab: "(a, b) \<in> set bracket_types"
      and "stray_close a b (length (stk stacks a)) cs"
      and e: "\<exists>c i. e = UnmatchedClosing c i"
      by blast
    then have "stray_close a b (length (stk stacks a)) (c # cs)"
      by (simp only: dot(1) depth_dot [OF ab] simp_thms)
    with ab e show ?thesis by blast
  next
    case foreign
    with cd show ?thesis by simp
  qed
qed

lemma check_open_None:
  "wf_stacks stacks \<Longrightarrow>
   (check_open stacks stack_keys = None) = (\<forall>(a, b) \<in> set bracket_types. stk stacks a = [])"
  by (auto simp: wf_stacks_def stack_keys_def bracket_types_def stk_def split: option.splits)

lemma check_open_Some:
  "check_open stacks ks = Some e \<Longrightarrow> \<exists>k st. e = UnmatchedOpening k st"
  by (induction ks) (auto split: option.splits if_splits)

lemma stray_close_filter:
  "P a \<Longrightarrow> P b \<Longrightarrow> stray_close a b d (filter P s) = stray_close a b d s"
  by (induction s arbitrary: d) auto

lemma open_left_filter:
  "P a \<Longrightarrow> P b \<Longrightarrow> open_left a b d (filter P s) = open_left a b d s"
  by (induction s arbitrary: d) auto

lemma stray_close_clean:
  "(a, b) \<in> set bracket_types \<Longrightarrow> stray_close a b d (clean s) = stray_close a b d s"
  by (simp add: clean_filter stray_close_filter types_dot)

lemma open_left_clean:
  "(a, b) \<in> set bracket_types \<Longrightarrow> open_left a b d (clean s) = open_left a b d s"
  by (simp add: clean_filter open_left_filter types_dot)

subsection \<open>The number of pairs\<close>

lemma depth_sum_upd:
  "k \<in> set stack_keys \<Longrightarrow>
   depth_sum (stacks(k \<mapsto> v)) + length (stk stacks k) = depth_sum stacks + length v"
  by (auto simp: depth_sum_def stack_keys_def stk_def)

lemma depth_sum_zero:
  "(depth_sum stacks = 0) = (\<forall>(a, b) \<in> set bracket_types. stk stacks a = [])"
  by (auto simp: depth_sum_def stack_keys_def bracket_types_def)

lemma depth_sum_init: "depth_sum init_stacks = 0"
  by (simp add: depth_sum_def stk_init)

text \<open>
  Every bracket read adds one to twice the number of pairs plus the number of indices
  on the stacks.
\<close>

lemma scan_count:
  "scan stacks pairs idx cs = Inr (stacks', pairs') \<Longrightarrow> wf_stacks stacks \<Longrightarrow>
   2 * length pairs' + depth_sum stacks' =
   2 * length pairs + depth_sum stacks + length (filter (\<lambda>c. c \<noteq> CHR ''.'') cs)"
proof (induction cs arbitrary: stacks pairs idx)
  case Nil
  then show ?case by simp
next
  case (Cons c cs)
  from Cons.prems(2) show ?case
  proof (cases rule: scan_step [where c = c and pairs = pairs and idx = idx and cs = cs])
    case push
    let ?st = "stacks(c \<mapsto> stk stacks c @ [idx])"
    from push Cons.prems have "wf_stacks ?st" and "scan ?st pairs (idx + 1) cs = Inr (stacks', pairs')"
      by (simp_all add: wf_upd)
    then have "2 * length pairs' + depth_sum stacks' =
        2 * length pairs + depth_sum ?st + length (filter (\<lambda>c. c \<noteq> CHR ''.'') cs)"
      by (rule Cons.IH [rotated])
    with depth_sum_upd [OF push(1), of stacks "stk stacks c @ [idx]"] key_not_dot [OF push(1)]
    show ?thesis by simp
  next
    case (pop left)
    let ?st = "stacks(left \<mapsto> butlast (stk stacks left))"
    let ?ps = "pairs @ [(last (stk stacks left), idx)]"
    note m = match_Some [OF pop(1)]
    from pop Cons.prems m have "wf_stacks ?st" and "scan ?st ?ps (idx + 1) cs = Inr (stacks', pairs')"
      by (simp_all add: wf_upd)
    then have "2 * length pairs' + depth_sum stacks' =
        2 * length ?ps + depth_sum ?st + length (filter (\<lambda>c. c \<noteq> CHR ''.'') cs)"
      by (rule Cons.IH [rotated])
    moreover have "length (stk stacks left) = Suc (length (butlast (stk stacks left)))"
      using pop(2) by (cases "stk stacks left" rule: rev_cases) auto
    ultimately show ?thesis
      using depth_sum_upd [of left stacks "butlast (stk stacks left)"] m match_not_dot [OF pop(1)]
      by (simp del: length_butlast)
  next
    case (stray left)
    with Cons.prems(1) show ?thesis by simp
  next
    case dot
    with Cons.prems have "scan stacks pairs (idx + 1) cs = Inr (stacks', pairs')" by simp
    from Cons.IH [OF this Cons.prems(2)] dot(1) show ?thesis by simp
  next
    case foreign
    with Cons.prems(1) show ?thesis by simp
  qed
qed

subsection \<open>The three outcomes of the parser\<close>

lemma scan_clean_Inl:
  assumes "scan init_stacks [] start (clean s) = Inl e"
  shows "closing_unmatched s \<and> (\<exists>c i. e = UnmatchedClosing c i)"
proof -
  from scan_Inl [OF assms wf_init set_clean]
  obtain a b where ab: "(a, b) \<in> set bracket_types" "stray_close a b 0 (clean s)"
    and e: "\<exists>c i. e = UnmatchedClosing c i"
    by (auto simp: stk_init)
  from ab have "stray_close a b 0 s" by (simp add: stray_close_clean)
  with ab(1) have "closing_unmatched s" unfolding closing_unmatched_def by blast
  with e show ?thesis by simp
qed

lemma scan_clean_Inr:
  assumes "scan init_stacks [] start (clean s) = Inr (stacks', pairs')"
  shows "wf_stacks stacks'" and "\<not> closing_unmatched s"
    and "opening_unmatched s = (\<exists>(a, b) \<in> set bracket_types. stk stacks' a \<noteq> [])"
    and "2 * length pairs' + depth_sum stacks' = length (filter (\<lambda>c. c \<noteq> CHR ''.'') (clean s))"
proof -
  have *: "wf_stacks stacks' \<and> \<not> stray_close a b 0 s \<and> length (stk stacks' a) = open_left a b 0 s"
    if "(a, b) \<in> set bracket_types" for a b
    using scan_Inr [OF assms wf_init that] that
    by (simp add: stk_init stray_close_clean open_left_clean)
  show "wf_stacks stacks'" using * [of "CHR ''(''" "CHR '')''"] by (simp add: bracket_types_def)
  show "\<not> closing_unmatched s" using * by (auto simp: closing_unmatched_def)
  have "0 < open_left a b 0 s \<longleftrightarrow> stk stacks' a \<noteq> []" if "(a, b) \<in> set bracket_types" for a b
    using * [OF that] by (cases "stk stacks' a") auto
  then show "opening_unmatched s = (\<exists>(a, b) \<in> set bracket_types. stk stacks' a \<noteq> [])"
    unfolding opening_unmatched_def by blast
  show "2 * length pairs' + depth_sum stacks' = length (filter (\<lambda>c. c \<noteq> CHR ''.'') (clean s))"
    using scan_count [OF assms wf_init] by (simp add: depth_sum_init)
qed

lemma parse_closing:
  assumes "closing_unmatched s"
  shows "\<exists>c i. parse_dotbracket s start = Inl (UnmatchedClosing c i)"
proof (cases "scan init_stacks [] start (clean s)")
  case (Inl e)
  from scan_clean_Inl [OF Inl] Inl show ?thesis
    by (auto simp: parse_dotbracket_def)
next
  case (Inr r)
  obtain stacks' pairs' where "r = (stacks', pairs')" by (cases r)
  with Inr scan_clean_Inr(2) assms show ?thesis by blast
qed

lemma parse_opening:
  assumes "\<not> closing_unmatched s" and "opening_unmatched s"
  shows "\<exists>k st. parse_dotbracket s start = Inl (UnmatchedOpening k st)"
proof (cases "scan init_stacks [] start (clean s)")
  case (Inl e)
  from scan_clean_Inl [OF Inl] assms show ?thesis by simp
next
  case (Inr r)
  obtain stacks' pairs' where r: "r = (stacks', pairs')" by (cases r)
  note s = Inr [unfolded r]
  from scan_clean_Inr(1,3) [OF s] assms(2)
  have "check_open stacks' stack_keys \<noteq> None"
    by (auto simp: check_open_None)
  then obtain e where e: "check_open stacks' stack_keys = Some e" by auto
  from check_open_Some [OF e] e s show ?thesis
    by (auto simp: parse_dotbracket_def)
qed

lemma parse_balanced:
  assumes "balanced s"
  shows "\<exists>ps. parse_dotbracket s start = Inr ps \<and>
     2 * length ps = length (filter (\<lambda>c. c \<noteq> CHR ''.'') (clean s))"
proof (cases "scan init_stacks [] start (clean s)")
  case (Inl e)
  from scan_clean_Inl [OF Inl] assms show ?thesis by (simp add: balanced_def)
next
  case (Inr r)
  obtain stacks' pairs' where r: "r = (stacks', pairs')" by (cases r)
  note s = Inr [unfolded r]
  from scan_clean_Inr(3) [OF s] assms
  have z: "\<forall>(a, b) \<in> set bracket_types. stk stacks' a = []"
    by (auto simp: balanced_def)
  with scan_clean_Inr(1) [OF s] have "check_open stacks' stack_keys = None"
    by (simp add: check_open_None)
  moreover from z have "depth_sum stacks' = 0" by (simp add: depth_sum_zero)
  ultimately show ?thesis using s scan_clean_Inr(4) [OF s]
    by (simp add: parse_dotbracket_def)
qed

subsection \<open>The indices of the pairs\<close>

lemma scan_invD:
  assumes "scan_inv lo stacks pairs idx"
  shows "wf_stacks stacks" and "lo \<le> idx"
    and "\<And>a. distinct (stk stacks a)"
    and "\<And>a b. a \<noteq> b \<Longrightarrow> set (stk stacks a) \<inter> set (stk stacks b) = {}"
    and "\<And>a x. x \<in> set (stk stacks a) \<Longrightarrow> lo \<le> x"
    and "\<And>a x. x \<in> set (stk stacks a) \<Longrightarrow> x < idx"
    and "\<And>a x. x \<in> set (stk stacks a) \<Longrightarrow> x \<notin> fst ` set pairs"
    and "\<And>a x. x \<in> set (stk stacks a) \<Longrightarrow> x \<notin> snd ` set pairs"
    and "distinct (map fst pairs @ map snd pairs)"
    and "\<And>i j. (i, j) \<in> set pairs \<Longrightarrow> lo \<le> i"
    and "\<And>i j. (i, j) \<in> set pairs \<Longrightarrow> i < j"
    and "\<And>i j. (i, j) \<in> set pairs \<Longrightarrow> j < idx"
  using assms unfolding scan_inv_def by blast+

lemma scan_invI:
  assumes "wf_stacks stacks" and "lo \<le> idx"
    and "\<And>a. distinct (stk stacks a)"
    and "\<And>a b. a \<noteq> b \<Longrightarrow> set (stk stacks a) \<inter> set (stk stacks b) = {}"
    and "\<And>a x. x \<in> set (stk stacks a) \<Longrightarrow>
           lo \<le> x \<and> x < idx \<and> x \<notin> fst ` set pairs \<and> x \<notin> snd ` set pairs"
    and "distinct (map fst pairs @ map snd pairs)"
    and "\<And>i j. (i, j) \<in> set pairs \<Longrightarrow> lo \<le> i \<and> i < j \<and> j < idx"
  shows "scan_inv lo stacks pairs idx"
  using assms unfolding scan_inv_def by blast

lemma inv_init: "scan_inv lo init_stacks [] lo"
  by (simp add: scan_inv_def wf_init stk_init)

text \<open>The current index is new: it is on no stack and in no pair.\<close>

lemma inv_fresh:
  assumes "scan_inv lo stacks pairs idx"
  shows "idx \<notin> set (stk stacks a)" and "idx \<notin> fst ` set pairs" and "idx \<notin> snd ` set pairs"
proof -
  note D = scan_invD [OF assms]
  show "idx \<notin> set (stk stacks a)" using D(6) [of idx a] by auto
  show "idx \<notin> fst ` set pairs"
  proof
    assume "idx \<in> fst ` set pairs"
    then obtain j where "(idx, j) \<in> set pairs" by auto
    from D(11,12) [OF this] show False by simp
  qed
  show "idx \<notin> snd ` set pairs"
  proof
    assume "idx \<in> snd ` set pairs"
    then obtain i where "(i, idx) \<in> set pairs" by auto
    from D(12) [OF this] show False by simp
  qed
qed

lemma inv_dot:
  assumes "scan_inv lo stacks pairs idx"
  shows "scan_inv lo stacks pairs (idx + 1)"
proof (rule scan_invI)
  note D = scan_invD [OF assms]
  show "wf_stacks stacks" by (rule D)
  show "lo \<le> idx + 1" using D(2) by simp
  show "distinct (stk stacks a)" for a by (rule D)
  show "set (stk stacks a) \<inter> set (stk stacks b) = {}" if "a \<noteq> b" for a b
    using that by (rule D)
  show "lo \<le> x \<and> x < idx + 1 \<and> x \<notin> fst ` set pairs \<and> x \<notin> snd ` set pairs"
    if "x \<in> set (stk stacks a)" for a x
    using D(5,6,7,8) [OF that] by simp
  show "distinct (map fst pairs @ map snd pairs)" by (rule D)
  show "lo \<le> i \<and> i < j \<and> j < idx + 1" if "(i, j) \<in> set pairs" for i j
    using D(10,11,12) [OF that] by simp
qed

lemma inv_push:
  assumes "scan_inv lo stacks pairs idx" and "k \<in> set stack_keys"
  shows "scan_inv lo (stacks(k \<mapsto> stk stacks k @ [idx])) pairs (idx + 1)"
proof (rule scan_invI)
  note D = scan_invD [OF assms(1)] and F = inv_fresh [OF assms(1)]
  let ?st = "stacks(k \<mapsto> stk stacks k @ [idx])"
  show "wf_stacks ?st" using D(1) assms(2) by (simp add: wf_upd)
  show "lo \<le> idx + 1" using D(2) by simp
  show "distinct (stk ?st a)" for a
    using D(3) F(1) by (simp add: stk_upd)
  show "set (stk ?st a) \<inter> set (stk ?st b) = {}" if "a \<noteq> b" for a b
    using D(4) [OF that] D(4) [of k b] D(4) [of a k] F(1) that by (auto simp: stk_upd)
  show "lo \<le> x \<and> x < idx + 1 \<and> x \<notin> fst ` set pairs \<and> x \<notin> snd ` set pairs"
    if "x \<in> set (stk ?st a)" for a x
  proof (cases "x = idx")
    case True
    with D(2) F(2,3) show ?thesis by simp
  next
    case False
    with that obtain a' where "x \<in> set (stk stacks a')"
      by (auto simp: stk_upd split: if_splits)
    from D(5,6,7,8) [OF this] show ?thesis by simp
  qed
  show "distinct (map fst pairs @ map snd pairs)" by (rule D)
  show "lo \<le> i \<and> i < j \<and> j < idx + 1" if "(i, j) \<in> set pairs" for i j
    using D(10,11,12) [OF that] by simp
qed

lemma inv_pop:
  assumes "scan_inv lo stacks pairs idx" and "k \<in> set stack_keys" and "stk stacks k \<noteq> []"
  shows "scan_inv lo (stacks(k \<mapsto> butlast (stk stacks k)))
           (pairs @ [(last (stk stacks k), idx)]) (idx + 1)"
proof (rule scan_invI)
  note D = scan_invD [OF assms(1)] and F = inv_fresh [OF assms(1)]
  from assms(3) obtain ys y where sty: "stk stacks k = ys @ [y]"
    by (cases "stk stacks k" rule: rev_cases) auto
  let ?st = "stacks(k \<mapsto> butlast (stk stacks k))"
  let ?ps = "pairs @ [(last (stk stacks k), idx)]"
  have h: "stk ?st a = (if a = k then ys else stk stacks a)" for a
    by (simp add: stk_upd sty)
  have ps: "?ps = pairs @ [(y, idx)]" by (simp add: sty)
  have yk: "y \<in> set (stk stacks k)" using sty by simp
  have yn: "y \<notin> set ys" using D(3) [of k] sty by simp
  have ysub: "set ys \<subseteq> set (stk stacks k)" using sty by auto
  show "wf_stacks ?st" using D(1) assms(2) by (simp add: wf_upd)
  show "lo \<le> idx + 1" using D(2) by simp
  show "distinct (stk ?st a)" for a
    unfolding h using D(3) [of a] D(3) [of k] sty by simp
  show "set (stk ?st a) \<inter> set (stk ?st b) = {}" if "a \<noteq> b" for a b
    unfolding h using D(4) [OF that] D(4) [of k b] D(4) [of a k] ysub that by auto
  show "lo \<le> x \<and> x < idx + 1 \<and> x \<notin> fst ` set ?ps \<and> x \<notin> snd ` set ?ps"
    if "x \<in> set (stk ?st a)" for a x
  proof -
    from that have xa: "x \<in> set (stk stacks a)" and xy: "x \<noteq> y"
      unfolding h using ysub yn D(4) [of a k] yk by (auto split: if_splits)
    from D(5,6,7,8) [OF xa] xy show ?thesis unfolding ps by simp
  qed
  show "distinct (map fst ?ps @ map snd ?ps)"
    unfolding ps using D(9) D(7,8,6) [OF yk] F(2,3) by auto
  show "lo \<le> i \<and> i < j \<and> j < idx + 1" if "(i, j) \<in> set ?ps" for i j
  proof (cases "(i, j) \<in> set pairs")
    case True
    from D(10,11,12) [OF this] show ?thesis by simp
  next
    case False
    with that have "i = y" "j = idx" by (auto simp: ps)
    with D(5,6) [OF yk] show ?thesis by simp
  qed
qed

lemma scan_keeps_inv:
  "scan stacks pairs idx cs = Inr (stacks', pairs') \<Longrightarrow> scan_inv lo stacks pairs idx \<Longrightarrow>
   scan_inv lo stacks' pairs' (idx + int (length cs))"
proof (induction cs arbitrary: stacks pairs idx)
  case Nil
  then show ?case by simp
next
  case (Cons c cs)
  have len: "idx + 1 + int (length cs) = idx + int (length (c # cs))" by simp
  from scan_invD(1) [OF Cons.prems(2)] show ?case
  proof (cases rule: scan_step [where c = c and pairs = pairs and idx = idx and cs = cs])
    case push
    with Cons.prems(1)
    have "scan (stacks(c \<mapsto> stk stacks c @ [idx])) pairs (idx + 1) cs = Inr (stacks', pairs')"
      by simp
    then have "scan_inv lo stacks' pairs' (idx + 1 + int (length cs))"
      using inv_push [OF Cons.prems(2) push(1)] by (rule Cons.IH)
    then show ?thesis unfolding len .
  next
    case (pop left)
    from match_Some [OF pop(1)] have k: "left \<in> set stack_keys" by simp
    from pop Cons.prems(1)
    have "scan (stacks(left \<mapsto> butlast (stk stacks left)))
            (pairs @ [(last (stk stacks left), idx)]) (idx + 1) cs = Inr (stacks', pairs')"
      by simp
    then have "scan_inv lo stacks' pairs' (idx + 1 + int (length cs))"
      using inv_pop [OF Cons.prems(2) k pop(2)] by (rule Cons.IH)
    then show ?thesis unfolding len .
  next
    case (stray left)
    with Cons.prems(1) show ?thesis by simp
  next
    case dot
    with Cons.prems(1) have "scan stacks pairs (idx + 1) cs = Inr (stacks', pairs')" by simp
    then have "scan_inv lo stacks' pairs' (idx + 1 + int (length cs))"
      using inv_dot [OF Cons.prems(2)] by (rule Cons.IH)
    then show ?thesis unfolding len .
  next
    case foreign
    with Cons.prems(1) show ?thesis by simp
  qed
qed

lemma parse_Inr:
  assumes "parse_dotbracket s start = Inr ps"
  obtains stacks' pairs' where "ps = sort_key (\<lambda>x. (fst x, snd x)) pairs'"
    and "scan_inv start stacks' pairs' (start + int (length (clean s)))"
proof (cases "scan init_stacks [] start (clean s)")
  case (Inl e)
  with assms show ?thesis by (simp add: parse_dotbracket_def)
next
  case (Inr r)
  obtain stacks' pairs' where r: "r = (stacks', pairs')" by (cases r)
  note sc = Inr [unfolded r]
  from assms sc have "ps = sort_key (\<lambda>x. (fst x, snd x)) pairs'"
    by (auto simp: parse_dotbracket_def split: option.splits)
  moreover have "scan_inv start stacks' pairs' (start + int (length (clean s)))"
    using scan_keeps_inv [OF sc inv_init] .
  ultimately show ?thesis by (rule that)
qed

lemma distinct_perm_fst_snd:
  assumes "mset ps = mset qs"
  shows "distinct (map fst ps @ map snd ps) = distinct (map fst qs @ map snd qs)"
proof -
  have "mset (map fst ps @ map snd ps) = mset (map fst qs @ map snd qs)"
    using assms by (metis mset_append mset_map)
  then show ?thesis by (rule mset_eq_imp_distinct_iff)
qed

lemma sorted_fst:
  fixes ps :: "(int \<times> int) list"
  shows "sorted (map (\<lambda>x. (fst x, snd x)) ps) \<Longrightarrow> sorted (map fst ps)"
  by (induction ps) (auto simp: less_eq_prod_def)

subsection \<open>Unmatched symbols, by counting\<close>

text \<open>
  The two notions can be read off the counts of the symbols: a closing symbol is
  unmatched when some prefix of the input holds more closing than opening symbols of a
  type, and an opening symbol is unmatched at the end when some suffix holds more
  opening than closing symbols of a type.
\<close>

lemma ex_le_Suc: "(\<exists>n\<le>Suc N. P n) = (P 0 \<or> (\<exists>m\<le>N. P (Suc m)))"
proof
  assume "\<exists>n\<le>Suc N. P n"
  then obtain n where n: "n \<le> Suc N" "P n" by blast
  then show "P 0 \<or> (\<exists>m\<le>N. P (Suc m))" by (cases n) auto
next
  assume "P 0 \<or> (\<exists>m\<le>N. P (Suc m))"
  then show "\<exists>n\<le>Suc N. P n" by auto
qed

lemma stray_close_prefix:
  "a \<noteq> b \<Longrightarrow>
   stray_close a b d s =
     (\<exists>n\<le>length s. d + count_list (take n s) a < count_list (take n s) b)"
proof (induction s arbitrary: d)
  case Nil
  then show ?case by simp
next
  case (Cons c s)
  show ?case
  proof (cases d)
    case 0
    with Cons show ?thesis by (auto simp: ex_le_Suc)
  next
    case (Suc d')
    with Cons show ?thesis by (auto simp: ex_le_Suc)
  qed
qed

lemma open_left_suffix:
  "a \<noteq> b \<Longrightarrow>
   (0 < open_left a b d s) =
     (count_list s b < d + count_list s a \<or>
      (\<exists>n\<le>length s. count_list (drop n s) b < count_list (drop n s) a))"
proof (induction s arbitrary: d)
  case Nil
  then show ?case by simp
next
  case (Cons c s)
  have z: "count_list s b < count_list s a \<Longrightarrow> \<exists>n\<le>length s. count_list (drop n s) b < count_list (drop n s) a"
    by (rule exI [of _ 0]) simp
  show ?case
  proof (cases d)
    case 0
    with Cons z show ?thesis by (auto simp: ex_le_Suc)
  next
    case (Suc d')
    with Cons z show ?thesis by (auto simp: ex_le_Suc)
  qed
qed

lemma closing_unmatched_by_count:
  "closing_unmatched s =
     (\<exists>(a, b) \<in> set bracket_types.
        \<exists>n\<le>length s. count_list (take n s) a < count_list (take n s) b)"
  unfolding closing_unmatched_def
  using stray_close_prefix [OF types_distinct, of _ _ 0 s] by fastforce

lemma opening_unmatched_by_count:
  "opening_unmatched s =
     (\<exists>(a, b) \<in> set bracket_types.
        \<exists>n\<le>length s. count_list (drop n s) b < count_list (drop n s) a)"
proof -
  have "(0 < open_left a b 0 s) =
      (\<exists>n\<le>length s. count_list (drop n s) b < count_list (drop n s) a)"
    if "(a, b) \<in> set bracket_types" for a b
  proof -
    have "count_list s b < count_list s a \<Longrightarrow>
        \<exists>n\<le>length s. count_list (drop n s) b < count_list (drop n s) a"
      by (rule exI [of _ 0]) simp
    with open_left_suffix [OF types_distinct [OF that], of 0 s] show ?thesis by auto
  qed
  then show ?thesis unfolding opening_unmatched_def by fastforce
qed

subsection \<open>Saenger classes\<close>

lemma nucleotide_cases:
  "nucleotide c = Some x \<Longrightarrow>
    (c = CHR ''A'' \<and> x = CHR ''A'') \<or> (c = CHR ''a'' \<and> x = CHR ''A'') \<or>
    (c = CHR ''C'' \<and> x = CHR ''C'') \<or> (c = CHR ''c'' \<and> x = CHR ''C'') \<or>
    (c = CHR ''G'' \<and> x = CHR ''G'') \<or> (c = CHR ''g'' \<and> x = CHR ''G'') \<or>
    (c = CHR ''U'' \<and> x = CHR ''U'') \<or> (c = CHR ''u'' \<and> x = CHR ''U'') \<or>
    (c = CHR ''T'' \<and> x = CHR ''U'') \<or> (c = CHR ''t'' \<and> x = CHR ''U'')"
  by (auto simp: nucleotide_def split: if_splits)

lemma norm_letters:
  "replace_T_U (upper ''A'') = ''A''" "replace_T_U (upper ''a'') = ''A''"
  "replace_T_U (upper ''C'') = ''C''" "replace_T_U (upper ''c'') = ''C''"
  "replace_T_U (upper ''G'') = ''G''" "replace_T_U (upper ''g'') = ''G''"
  "replace_T_U (upper ''U'') = ''U''" "replace_T_U (upper ''u'') = ''U''"
  "replace_T_U (upper ''T'') = ''U''" "replace_T_U (upper ''t'') = ''U''"
  by (simp_all add: upper_def upper_char_def ascii_lower_def ascii_upper_def replace_T_U_def)

lemma nucleotide_norm:
  assumes "nucleotide c = Some x"
  shows "replace_T_U (upper [c]) = [x]"
  using nucleotide_cases [OF assms] by (elim disjE conjE) (simp_all only: norm_letters)

lemma single_pair_eq: "({[x], [y]} = {[a], [b]}) = ({x, y} = {a, b})"
  by (auto simp: doubleton_eq_iff)

lemma infer_saenger_pair_bases:
  assumes "nucleotide c1 = Some x" and "nucleotide c2 = Some y"
  shows "infer_saenger_pair [c1] [c2] =
     (if {x, y} = {CHR ''G'', CHR ''C''} then Some 19
      else if {x, y} = {CHR ''A'', CHR ''U''} then Some 20
      else if {x, y} = {CHR ''G'', CHR ''U''} then Some 28
      else None)"
  unfolding infer_saenger_pair_def Let_def nucleotide_norm [OF assms(1)] nucleotide_norm [OF assms(2)]
    single_pair_eq ..

lemma subscript_in: "0 \<le> k \<Longrightarrow> k < int (length xs) \<Longrightarrow> subscript xs k = Inr (xs ! nat k)"
  by (simp add: subscript_def)

lemma subscript_cases:
  "0 \<le> k \<Longrightarrow> subscript xs k = (if k < int (length xs) then Inr (xs ! nat k) else Inl IndexError)"
  by (simp add: subscript_def)

lemma infer_loop_eq:
  "infer_loop pairs seq start_resnum classes stderr =
     Inr (classes @ map (pair_class seq start_resnum) pairs,
          stderr @ concat (map (pair_warning seq start_resnum) pairs))"
proof (induction pairs arbitrary: classes stderr)
  case Nil
  then show ?case by simp
next
  case (Cons p pairs)
  obtain i j where p: "p = (i, j)" by (cases p)
  show ?case
  proof (cases "in_range seq start_resnum p")
    case True
    then have "subscript seq (i - start_resnum) = Inr (seq ! nat (i - start_resnum))"
      and "subscript seq (j - start_resnum) = Inr (seq ! nat (j - start_resnum))"
      by (simp_all add: in_range_def p subscript_in)
    with True show ?thesis
      unfolding p by (simp add: Cons.IH in_range_def pair_class_def pair_warning_def Let_def)
  next
    case False
    then have "infer_loop (p # pairs) seq start_resnum classes stderr =
        infer_loop pairs seq start_resnum (classes @ [None])
          (stderr @ [warn_range i j (int (length seq))])"
      unfolding p by (simp add: in_range_def Let_def)
    with False show ?thesis
      by (simp add: Cons.IH pair_class_def pair_warning_def p)
  qed
qed

lemma warnings_count:
  "length (concat (map (pair_warning seq start_resnum) pairs)) =
   length (filter (\<lambda>c. c = None) (map (pair_class seq start_resnum) pairs))"
  by (induction pairs) (simp_all add: pair_warning_def pair_class_def)

lemma infer_saenger_for_pairs_length:
  "infer_saenger_for_pairs pairs seq start_resnum = Inr (classes, stderr) \<Longrightarrow>
   length classes = length pairs"
  by (auto simp: infer_saenger_for_pairs_def infer_loop_eq)

subsection \<open>The formatter\<close>

lemma phenix_loop_step:
  "phenix_loop (p # pairs) chain saenger_list (Some v) idx out =
     (case subscript saenger_list idx of
        Inl e \<Rightarrow> Inl e
      | Inr s \<Rightarrow> phenix_loop pairs chain saenger_list (Some v) (idx + 1)
                 (out @ override_block chain v p))"
  by (cases p) (simp add: override_block_def Let_def split: sum.splits)

lemma phenix_loop_override:
  "0 \<le> idx \<Longrightarrow> idx \<le> int (length saenger_list) \<Longrightarrow>
   phenix_loop pairs chain saenger_list (Some v) idx out =
     (if idx + int (length pairs) \<le> int (length saenger_list)
      then Inr (out @ concat (map (override_block chain v) pairs))
      else Inl IndexError)"
proof (induction pairs arbitrary: idx out)
  case Nil
  then show ?case by simp
next
  case (Cons p pairs)
  obtain i j where p: "p = (i, j)" by (cases p)
  show ?case
  proof (cases "idx < int (length saenger_list)")
    case True
    then have s: "subscript saenger_list idx = Inr (saenger_list ! nat idx)"
      using Cons.prems by (simp add: subscript_cases)
    have "0 \<le> idx + 1" "idx + 1 \<le> int (length saenger_list)"
      using True Cons.prems by simp_all
    note ih = Cons.IH [OF this]
    show ?thesis
      by (simp add: phenix_loop_step s ih)
  next
    case False
    then have s: "subscript saenger_list idx = Inl IndexError"
      using Cons.prems by (simp add: subscript_cases)
    with False show ?thesis
      by (simp add: phenix_loop_step)
  qed
qed

section \<open>The claims about \<open>parse_dotbracket\<close>\<close>

lemma parse_nested: "parse_dotbracket ''((.))'' 1 = Inr [(1, 5), (2, 4)]"
  by (simp add: parse_dotbracket_def clean_def strip_def py_isspace_def dot_chars_def
      init_stacks_def match_def stack_keys_def)

lemma balanced_nested: "balanced ''((.))''"
  by (simp add: balanced_def closing_unmatched_def opening_unmatched_def bracket_types_def)

text \<open>
  C1: a balanced dot-bracket string, one in which no closing symbol and no opening
  symbol of any of the four types stays unmatched, is parsed, and the number of pairs
  returned is half the number of bracket characters, the characters other than the dot,
  of the filtered input.
\<close>

theorem parse_dotbracket_balanced_count:
  "balanced s \<Longrightarrow>
   \<exists>pairs. parse_dotbracket s start_resnum = Inr pairs \<and>
     2 * length pairs = length (filter (\<lambda>c. c \<noteq> CHR ''.'') (clean s))"
  using parse_balanced [of s start_resnum] by auto

theorem parse_dotbracket_balanced_count_witness:
  "balanced ''((.))'' \<and>
   (\<exists>pairs. parse_dotbracket ''((.))'' 1 = Inr pairs \<and> 2 * length pairs = 4)"
proof -
  have c: "length (filter (\<lambda>c. c \<noteq> CHR ''.'') (clean ''((.))'')) = 4"
    by (simp add: clean_def strip_def py_isspace_def dot_chars_def)
  from parse_dotbracket_balanced_count [OF balanced_nested, of 1]
  have "\<exists>pairs. parse_dotbracket ''((.))'' 1 = Inr pairs \<and> 2 * length pairs = 4"
    unfolding c .
  with balanced_nested show ?thesis by (rule conjI)
qed

text \<open>
  C2: on \<open>((.))\<close> with \<open>start_resnum = 1\<close> the parser returns exactly the pairs
  \<open>(1, 5)\<close> and \<open>(2, 4)\<close>.
\<close>

theorem parse_dotbracket_example:
  "parse_dotbracket ''((.))'' 1 = Inr [(1, 5), (2, 4)]"
  by (simp add: parse_dotbracket_def clean_def strip_def py_isspace_def dot_chars_def
      init_stacks_def match_def stack_keys_def)

text \<open>
  C3: the parser raises a \<open>ValueError\<close> exactly when some closing symbol has no earlier
  unmatched opening symbol of its type, or some opening symbol is still unmatched at the
  end of the input; the input \<open>(()\<close> is such a case, its first symbol staying open.
\<close>

theorem parse_dotbracket_error_iff:
  "((\<exists>e. parse_dotbracket s start_resnum = Inl e \<and> is_ValueError e) \<longleftrightarrow>
      closing_unmatched s \<or> opening_unmatched s) \<and>
   parse_dotbracket ''(()'' start_resnum = Inl (UnmatchedOpening (CHR ''('') [start_resnum])"
proof
  show "(\<exists>e. parse_dotbracket s start_resnum = Inl e \<and> is_ValueError e) \<longleftrightarrow>
      closing_unmatched s \<or> opening_unmatched s"
  proof
    assume "\<exists>e. parse_dotbracket s start_resnum = Inl e \<and> is_ValueError e"
    then have "\<not> balanced s" using parse_balanced [of s start_resnum] by auto
    then show "closing_unmatched s \<or> opening_unmatched s" by (simp add: balanced_def)
  next
    assume "closing_unmatched s \<or> opening_unmatched s"
    then consider "closing_unmatched s" | "\<not> closing_unmatched s" "opening_unmatched s" by blast
    then show "\<exists>e. parse_dotbracket s start_resnum = Inl e \<and> is_ValueError e"
    proof cases
      case 1
      from parse_closing [OF 1, of start_resnum] show ?thesis by auto
    next
      case 2
      from parse_opening [OF 2, of start_resnum] show ?thesis by auto
    qed
  qed
  show "parse_dotbracket ''(()'' start_resnum = Inl (UnmatchedOpening (CHR ''('') [start_resnum])"
    by (simp add: parse_dotbracket_def clean_def strip_def py_isspace_def dot_chars_def
      init_stacks_def match_def stack_keys_def)
qed

theorem parse_dotbracket_error_iff_witness:
  "closing_unmatched ''())'' \<and>
   (\<exists>e. parse_dotbracket ''())'' 1 = Inl e \<and> is_ValueError e)"
proof -
  have c: "closing_unmatched ''())''"
    by (simp add: closing_unmatched_def bracket_types_def)
  with parse_dotbracket_error_iff [of "''())''" 1] show ?thesis by blast
qed

text \<open>
  C7: the pairs returned are in strictly increasing order of their first index, so in
  non-decreasing order too.
\<close>

theorem parse_dotbracket_sorted:
  assumes "parse_dotbracket s start_resnum = Inr pairs"
  shows "sorted_wrt (<) (map fst pairs)"
proof -
  from assms(1) obtain stacks' pairs' where ps: "pairs = sort_key (\<lambda>x. (fst x, snd x)) pairs'"
    and inv: "scan_inv start_resnum stacks' pairs' (start_resnum + int (length (clean s)))"
    by (rule parse_Inr)
  have "sorted (map (\<lambda>x. (fst x, snd x)) pairs)"
    unfolding ps by (rule sorted_sort_key)
  then have 1: "sorted (map fst pairs)" by (rule sorted_fst)
  have "mset pairs = mset pairs'" by (simp add: ps)
  from distinct_perm_fst_snd [OF this] scan_invD(9) [OF inv]
  have "distinct (map fst pairs)" by simp
  with 1 show ?thesis by (simp add: strict_sorted_iff)
qed

theorem parse_dotbracket_sorted_witness:
  "parse_dotbracket ''((.))'' 1 = Inr [(1, 5), (2, 4)] \<and>
   sorted_wrt (<) (map fst [(1 :: int, 5 :: int), (2, 4)])"
  using parse_dotbracket_sorted [OF parse_nested] parse_nested by simp

text \<open>
  C8: every pair \<open>(i, j)\<close> returned has \<open>i < j\<close>, and both indices lie between
  \<open>start_resnum\<close> and \<open>start_resnum + L - 1\<close>, where \<open>L\<close> is the length of the filtered
  input.
\<close>

theorem parse_dotbracket_pair_bounds:
  assumes "parse_dotbracket s start_resnum = Inr pairs" and "(i, j) \<in> set pairs"
  shows "i < j \<and> start_resnum \<le> i \<and> i \<le> start_resnum + int (length (clean s)) - 1
     \<and> start_resnum \<le> j \<and> j \<le> start_resnum + int (length (clean s)) - 1"
proof -
  from assms(1) obtain stacks' pairs' where ps: "pairs = sort_key (\<lambda>x. (fst x, snd x)) pairs'"
    and inv: "scan_inv start_resnum stacks' pairs' (start_resnum + int (length (clean s)))"
    by (rule parse_Inr)
  from assms(2) ps have "(i, j) \<in> set pairs'" by simp
  from scan_invD(10,11,12) [OF inv this] show ?thesis by simp
qed

theorem parse_dotbracket_pair_bounds_witness:
  "parse_dotbracket ''((.))'' 1 = Inr [(1, 5), (2, 4)] \<and>
   (2, 4) \<in> set [(1 :: int, 5 :: int), (2, 4)] \<and>
   (2 :: int) < 4 \<and> (4 :: int) \<le> 1 + int (length (clean ''((.))'')) - 1"
proof -
  have m: "(2, 4) \<in> set [(1 :: int, 5 :: int), (2, 4)]" by simp
  from parse_dotbracket_pair_bounds [OF parse_nested m] parse_nested m
  show ?thesis by simp
qed

text \<open>
  C9: no input is rejected for a foreign character. The characters other than the dot
  and the eight bracket symbols are dropped before the matching, so the parser gives
  the same result on the input and on the input without them, and it never raises the
  \<open>Unexpected character\<close> error.
\<close>

theorem parse_dotbracket_foreign:
  "parse_dotbracket s start_resnum =
     parse_dotbracket (filter (\<lambda>c. c \<in> set dot_chars) s) start_resnum
   \<and> (\<forall>c i. parse_dotbracket s start_resnum \<noteq> Inl (UnexpectedCharacter c i))"
proof
  show "parse_dotbracket s start_resnum =
     parse_dotbracket (filter (\<lambda>c. c \<in> set dot_chars) s) start_resnum"
    by (simp add: parse_dotbracket_def clean_idem)
  show "\<forall>c i. parse_dotbracket s start_resnum \<noteq> Inl (UnexpectedCharacter c i)"
  proof (intro allI notI)
    fix c i
    assume a: "parse_dotbracket s start_resnum = Inl (UnexpectedCharacter c i)"
    show False
    proof (cases "scan init_stacks [] start_resnum (clean s)")
      case (Inl e)
      with a have "e = UnexpectedCharacter c i" by (simp add: parse_dotbracket_def)
      with scan_clean_Inl [OF Inl] show False by auto
    next
      case (Inr r)
      obtain stacks' pairs' where r: "r = (stacks', pairs')" by (cases r)
      from a Inr r have "check_open stacks' stack_keys = Some (UnexpectedCharacter c i)"
        by (simp add: parse_dotbracket_def split: option.splits)
      from check_open_Some [OF this] show False by auto
    qed
  qed
qed

theorem parse_dotbracket_foreign_witness:
  "parse_dotbracket ''a(b c)'' 1 = parse_dotbracket ''()'' 1 \<and>
   (\<forall>c i. parse_dotbracket ''a(b c)'' 1 \<noteq> Inl (UnexpectedCharacter c i))"
proof -
  have f: "filter (\<lambda>c. c \<in> set dot_chars) ''a(b c)'' = ''()''"
    by (simp add: dot_chars_def)
  from parse_dotbracket_foreign [of "''a(b c)''" 1] show ?thesis
    unfolding f .
qed

text \<open>
  C10: in the list returned, each residue index occurs at most once: the first and
  second indices of all the pairs, taken together, are all different.
\<close>

theorem parse_dotbracket_indices_distinct:
  assumes "parse_dotbracket s start_resnum = Inr pairs"
  shows "distinct (map fst pairs @ map snd pairs)"
proof -
  from assms(1) obtain stacks' pairs' where ps: "pairs = sort_key (\<lambda>x. (fst x, snd x)) pairs'"
    and inv: "scan_inv start_resnum stacks' pairs' (start_resnum + int (length (clean s)))"
    by (rule parse_Inr)
  have "mset pairs = mset pairs'" by (simp add: ps)
  from distinct_perm_fst_snd [OF this] scan_invD(9) [OF inv] show ?thesis by simp
qed

theorem parse_dotbracket_indices_distinct_witness:
  "parse_dotbracket ''((.))'' 1 = Inr [(1, 5), (2, 4)] \<and>
   distinct (map fst [(1 :: int, 5 :: int), (2, 4)] @ map snd [(1 :: int, 5 :: int), (2, 4)])"
  using parse_dotbracket_indices_distinct [OF parse_nested] parse_nested by simp

section \<open>The claims about the Saenger classes and the formatter\<close>

text \<open>
  C4: for two nucleotide letters, in upper or lower case and with \<open>T\<close> read as \<open>U\<close>,
  \<open>infer_saenger_pair\<close> returns 19 when the two bases are \<open>G\<close> and \<open>C\<close>, 20 when they
  are \<open>A\<close> and \<open>U\<close>, 28 when they are \<open>G\<close> and \<open>U\<close>, and \<open>None\<close> for every other
  combination; the order of the two arguments makes no difference.
\<close>

theorem infer_saenger_pair_table:
  assumes "nucleotide c1 = Some x" and "nucleotide c2 = Some y"
  shows "infer_saenger_pair [c1] [c2] =
     (if {x, y} = {CHR ''G'', CHR ''C''} then Some 19
      else if {x, y} = {CHR ''A'', CHR ''U''} then Some 20
      else if {x, y} = {CHR ''G'', CHR ''U''} then Some 28
      else None)
    \<and> infer_saenger_pair [c2] [c1] = infer_saenger_pair [c1] [c2]"
proof -
  have "{y, x} = {x, y}" by auto
  with infer_saenger_pair_bases [OF assms] infer_saenger_pair_bases [OF assms(2,1)]
  show ?thesis by simp
qed

theorem infer_saenger_pair_table_witness:
  "nucleotide (CHR ''g'') = Some (CHR ''G'') \<and> nucleotide (CHR ''T'') = Some (CHR ''U'') \<and>
   infer_saenger_pair ''g'' ''T'' = Some 28 \<and> infer_saenger_pair ''T'' ''g'' = Some 28"
proof -
  have 1: "nucleotide (CHR ''g'') = Some (CHR ''G'')" by (simp add: nucleotide_def)
  have 2: "nucleotide (CHR ''T'') = Some (CHR ''U'')" by (simp add: nucleotide_def)
  from infer_saenger_pair_table [OF 1 2] 1 2 show ?thesis by (simp add: doubleton_eq_iff)
qed

text \<open>
  C5: \<open>infer_saenger_for_pairs\<close> never raises and records one class for each pair. A
  pair with a residue index out of range gets the class \<open>None\<close> and the out-of-range
  warning; a pair within range gets what \<open>infer_saenger_pair\<close> returns for its two
  nucleotides, and when that is \<open>None\<close> (as for \<open>A\<close> and \<open>G\<close>) the warning that no class
  could be inferred.
\<close>

theorem infer_saenger_for_pairs_soft:
  assumes "k < length pairs" and "pairs ! k = (i, j)"
  shows "\<exists>classes stderr.
     infer_saenger_for_pairs pairs seq start_resnum = Inr (classes, stderr) \<and>
     length classes = length pairs \<and>
     length stderr = length (filter (\<lambda>c. c = None) classes) \<and>
     (let n = int (length seq); i0 = i - start_resnum; j0 = j - start_resnum
      in (\<not> (0 \<le> i0 \<and> i0 < n \<and> 0 \<le> j0 \<and> j0 < n) \<longrightarrow>
            classes ! k = None \<and> warn_range i j n \<in> set stderr) \<and>
         (0 \<le> i0 \<and> i0 < n \<and> 0 \<le> j0 \<and> j0 < n \<longrightarrow>
            classes ! k = infer_saenger_pair [seq ! nat i0] [seq ! nat j0] \<and>
            (classes ! k = None \<longrightarrow> warn_class (seq ! nat i0) (seq ! nat j0) \<in> set stderr)))"
proof -
  let ?cl = "map (pair_class seq start_resnum) pairs"
  let ?er = "concat (map (pair_warning seq start_resnum) pairs)"
  have r: "infer_saenger_for_pairs pairs seq start_resnum = Inr (?cl, ?er)"
    by (simp add: infer_saenger_for_pairs_def infer_loop_eq)
  have c: "?cl ! k = pair_class seq start_resnum (i, j)"
    using assms by simp
  have "(i, j) \<in> set pairs" using assms by (metis nth_mem)
  then have w: "set (pair_warning seq start_resnum (i, j)) \<subseteq> set ?er"
    by auto
  show ?thesis
    apply (rule exI [of _ ?cl], rule exI [of _ ?er])
    using r c w warnings_count [of seq start_resnum pairs]
    by (auto simp: Let_def pair_class_def pair_warning_def in_range_def)
qed

theorem infer_saenger_for_pairs_soft_witness:
  "\<exists>classes stderr.
     infer_saenger_for_pairs [(1, 2), (3, 9)] ''AGC'' 1 = Inr (classes, stderr) \<and>
     length classes = 2 \<and> length stderr = length (filter (\<lambda>c. c = None) classes) \<and>
     classes ! 0 = None \<and> warn_class (CHR ''A'') (CHR ''G'') \<in> set stderr \<and>
     classes ! 1 = None \<and> warn_range 3 9 3 \<in> set stderr"
proof -
  have n: "infer_saenger_pair ''A'' ''G'' = None"
    by (simp add: infer_saenger_pair_def upper_def upper_char_def ascii_lower_def ascii_upper_def
        replace_T_U_def doubleton_eq_iff)
  from infer_saenger_for_pairs_soft [of 0 "[(1, 2), (3, 9)]" 1 2 "''AGC''" 1]
    infer_saenger_for_pairs_soft [of 1 "[(1, 2), (3, 9)]" 3 9 "''AGC''" 1] n
  show ?thesis by (auto simp: Let_def)
qed

text \<open>
  C6: with an override, every block of the output of \<open>format_phenix\<close> holds the
  \<open>saenger_class\<close> line of the override, whatever class was inferred for the pair,
  \<open>None\<close> included: the output is made of the blocks \<open>override_block\<close>, and does not
  depend on the classes of \<open>saenger_list\<close>. (A list shorter than the list of pairs makes
  the subscript of line 146 raise \<open>IndexError\<close>, and then there is no output.)
\<close>

theorem format_phenix_override:
  "format_phenix pairs chain saenger_list (Some v) =
     (if length pairs \<le> length saenger_list
      then Inr (join [CHR 0x0A]
             ([''pdb_interpretation {'', ''  secondary_structure {'', ''    nucleic_acid {'']
              @ concat (map (override_block chain v) pairs)
              @ [''    }'', ''  }'', ''}'']))
      else Inl IndexError)"
  by (simp add: format_phenix_def phenix_loop_override)

theorem format_phenix_override_witness:
  "format_phenix [(1, 5)] ''A'' [None] (Some (PStr ''19'')) =
     Inr (join [CHR 0x0A]
       [''pdb_interpretation {'', ''  secondary_structure {'', ''    nucleic_acid {'',
        ''      base_pair {'',
        ''        base1 = chain '' @ [CHR 0x27] @ ''A'' @ [CHR 0x27] @ '' and resid 1'',
        ''        base2 = chain '' @ [CHR 0x27] @ ''A'' @ [CHR 0x27] @ '' and resid 5'',
        ''        saenger_class = 19'',
        ''      }'',
        ''    }'', ''  }'', ''}''])"
  using format_phenix_override [of "[(1, 5)]" "''A''" "[None]" "PStr ''19''"]
  by (simp add: override_block_def show_int_def)

end
